theory Spec2Isabelle
  imports Main
begin

section \<open>Strings and numbers of the host language\<close>

text \<open>
  The plugin is JavaScript. Its strings are modelled as \<^typ>\<open>string\<close>; the model is
  meant for ASCII text, which is all the increment engine produces. Its numbers are
  IEEE doubles: the only numbers the plugin computes with are the integers read by
  \<open>parseInt\<close>, and the model keeps them as mathematical integers next to a value for
  \<open>NaN\<close>. Doubles agree with the integers up to \<open>2^53\<close>; statements about numeric
  results carry that bound as a hypothesis.
\<close>

datatype jsnum = NaN | Num int

definition js_add :: "jsnum \<Rightarrow> jsnum \<Rightarrow> jsnum" where
  "js_add a b = (case (a, b) of (Num x, Num y) \<Rightarrow> Num (x + y) | _ \<Rightarrow> NaN)"

definition js_sub :: "jsnum \<Rightarrow> jsnum \<Rightarrow> jsnum" where
  "js_sub a b = (case (a, b) of (Num x, Num y) \<Rightarrow> Num (x - y) | _ \<Rightarrow> NaN)"

text \<open>Comparisons with \<open>NaN\<close> are false.\<close>

definition js_gt :: "jsnum \<Rightarrow> jsnum \<Rightarrow> bool" where
  "js_gt a b = (case (a, b) of (Num x, Num y) \<Rightarrow> x > y | _ \<Rightarrow> False)"

definition js_lt :: "jsnum \<Rightarrow> jsnum \<Rightarrow> bool" where
  "js_lt a b = (case (a, b) of (Num x, Num y) \<Rightarrow> x < y | _ \<Rightarrow> False)"

definition js_le :: "jsnum \<Rightarrow> jsnum \<Rightarrow> bool" where
  "js_le a b = (case (a, b) of (Num x, Num y) \<Rightarrow> x \<le> y | _ \<Rightarrow> False)"

definition code :: "char \<Rightarrow> nat" where
  "code c = of_char c"

definition is_digit :: "char \<Rightarrow> bool" where
  "is_digit c = (48 \<le> code c \<and> code c \<le> 57)"

definition is_upper :: "char \<Rightarrow> bool" where
  "is_upper c = (65 \<le> code c \<and> code c \<le> 90)"

text \<open>White space as \<open>trim\<close> and \<open>parseInt\<close> skip it: tab, line feed, vertical tab,
  form feed, carriage return, space and no-break space.\<close>

definition is_whitespace :: "char \<Rightarrow> bool" where
  "is_whitespace c = (code c \<in> {9, 10, 11, 12, 13, 32, 160})"

definition trim :: "string \<Rightarrow> string" where
  "trim s = rev (dropWhile is_whitespace (rev (dropWhile is_whitespace s)))"

definition digit_value :: "char \<Rightarrow> nat" where
  "digit_value c = code c - 48"

definition digits_value :: "string \<Rightarrow> nat" where
  "digits_value ds = foldl (\<lambda>acc c. 10 * acc + digit_value c) 0 ds"

text \<open>\<open>parseInt(s, 10)\<close>: leading white space is skipped, one sign is read, then the
  longest run of decimal digits; no digit gives \<open>NaN\<close>, and whatever follows the digits is
  ignored.\<close>

definition parseInt :: "string \<Rightarrow> jsnum" where
  "parseInt s =
     (let S = dropWhile is_whitespace s;
          sign = (if S \<noteq> [] \<and> hd S = CHR ''-'' then - 1 else 1);
          S' = (if S \<noteq> [] \<and> (hd S = CHR ''+'' \<or> hd S = CHR ''-'') then tl S else S);
          Z = takeWhile is_digit S'
      in if Z = [] then NaN else Num (sign * int (digits_value Z)))"

definition digit_char :: "nat \<Rightarrow> char" where
  "digit_char d = char_of (48 + d)"

fun digits_of :: "nat \<Rightarrow> string" where
  "digits_of n = (if n < 10 then [digit_char n] else digits_of (n div 10) @ [digit_char (n mod 10)])"

declare digits_of.simps [simp del]

text \<open>\<open>Number.prototype.toString\<close> on the values the plugin prints.\<close>

definition number_toString :: "jsnum \<Rightarrow> string" where
  "number_toString x =
     (case x of NaN \<Rightarrow> ''NaN''
      | Num n \<Rightarrow> if n < 0 then CHR ''-'' # digits_of (nat (- n)) else digits_of (nat n))"

text \<open>\<open>padStart(targetLength, c)\<close> with a one-character filler.\<close>

definition padStart :: "nat \<Rightarrow> char \<Rightarrow> string \<Rightarrow> string" where
  "padStart targetLength c s = replicate (targetLength - length s) c @ s"

text \<open>\<open>toUpperCase\<close> on ASCII.\<close>

definition toUpperCase_char :: "char \<Rightarrow> char" where
  "toUpperCase_char c = (if 97 \<le> code c \<and> code c \<le> 122 then char_of (code c - 32) else c)"

definition toUpperCase :: "string \<Rightarrow> string" where
  "toUpperCase s = map toUpperCase_char s"

text \<open>\<open>a.localeCompare(b)\<close>, as the sign of the comparison of the two strings character by
  character, a proper prefix coming first. On digits and upper-case letters, which is
  where the plugin uses it, the host's collation is this order.\<close>

fun localeCompare :: "string \<Rightarrow> string \<Rightarrow> int" where
  "localeCompare [] [] = 0"
| "localeCompare [] (y # ys) = - 1"
| "localeCompare (x # xs) [] = 1"
| "localeCompare (x # xs) (y # ys) =
     (if code x < code y then - 1 else if code y < code x then 1 else localeCompare xs ys)"

text \<open>\<open>s.replace(pat, rep)\<close> with a string pattern: the first occurrence of \<open>pat\<close> is
  replaced. The plugin only passes the empty replacement, which has no \<open>$\<close> pattern.\<close>

fun replace :: "string \<Rightarrow> string \<Rightarrow> string \<Rightarrow> string" where
  "replace [] pat rep = (if pat = [] then rep else [])"
| "replace (c # cs) pat rep =
     (if take (length pat) (c # cs) = pat then rep @ drop (length pat) (c # cs)
      else c # replace cs pat rep)"

section \<open>Increment engine\<close>

definition incrementNumber :: "string \<Rightarrow> string" where
  "incrementNumber value =
     (let num = parseInt value
      in padStart (length value) (CHR ''0'') (number_toString (js_add num (Num 1))))"

text \<open>The loop of \<open>incrementLetter\<close>. The source's index \<open>i\<close> runs from the last position
  down to \<open>-1\<close>; the model counts \<open>i + 1\<close>, so \<open>0\<close> is the exit of the loop.\<close>

fun incrementLetter_loop :: "string \<Rightarrow> nat \<Rightarrow> string" where
  "incrementLetter_loop chars 0 = CHR ''A'' # chars"
| "incrementLetter_loop chars (Suc i) =
     (if chars ! i = CHR ''Z'' then incrementLetter_loop (chars[i := CHR ''A'']) i
      else chars[i := char_of (code (chars ! i) + 1)])"

definition incrementLetter :: "string \<Rightarrow> string" where
  "incrementLetter value = (let chars = toUpperCase value in incrementLetter_loop chars (length chars))"

text \<open>Compare two values (for compliance checks).\<close>

definition compareValues :: "string \<Rightarrow> string \<Rightarrow> string \<Rightarrow> jsnum" where
  "compareValues a b type =
     (if type = ''letter'' then Num (localeCompare a b)
      else js_sub (parseInt a) (parseInt b))"


section \<open>Data model\<close>

record sequence =
  seq_id :: string
  name :: string
  prefix :: string
  nextValue :: string
  highestUsed :: string
  type :: string
  mode :: string
  locked :: bool
  createdAt :: nat

definition incrementValue :: "sequence \<Rightarrow> string" where
  "incrementValue sequence =
     (if type sequence = ''letter'' then incrementLetter (nextValue sequence)
      else incrementNumber (nextValue sequence))"

definition getFullValue :: "sequence \<Rightarrow> string" where
  "getFullValue sequence = prefix sequence @ nextValue sequence"

text \<open>A node of the document: its id, its type tag, the three plugin-data keys the plugin
  uses (a key that was never set reads as the empty string) and its text. A node without
  a \<open>children\<close> property has no children in the model.\<close>

record node_data =
  node_id :: string
  node_type :: string
  sequenceId :: string
  stampedValue :: string
  stampedAt :: string
  characters :: string

datatype node = Node (data: node_data) (children: "node list")

text \<open>The nodes of a subtree in the order a depth-first traversal visits them.\<close>

fun nodes_of :: "node \<Rightarrow> node_data list" where
  "nodes_of (Node d kids) = d # concat (map nodes_of kids)"

text \<open>A write to the node with a given id: the source holds a reference to the node and
  mutates it in place.\<close>

fun update_node :: "string \<Rightarrow> (node_data \<Rightarrow> node_data) \<Rightarrow> node \<Rightarrow> node" where
  "update_node i f (Node d kids) =
     Node (if node_id d = i then f d else d) (map (update_node i f) kids)"

text \<open>What the host hands to one handler run besides the message: the clock, the random
  part of a fresh id, and whether the node's font and the fallback font load.\<close>

record env =
  now :: nat
  random :: string
  fontLoads :: bool
  fallbackLoads :: bool

datatype msg =
    SelectSequence string
  | CreateSequence string "string option" string string string
  | DeleteSequence string
  | LinkAndStamp string
  | Stamp
  | Unlink
  | Relink string
  | Reset string string
  | Close

datatype analysis =
    StateNone
  | NotText
  | Unlinked string string
  | BrokenLink string string
  | NeedsStamp string sequence bool
  | StampedState string sequence string

datatype ui_msg =
    Error string
  | SequenceCreated sequence
  | SequenceDeleted
  | Stamped string sequence
  | UnlinkedMsg
  | Relinked
  | ResetDone sequence
  | SelectionState analysis "sequence list" "string option" "sequence option"

text \<open>The state a handler reads and writes: the persisted sequence collection and selected
  id (plugin data of the document root), the current page, the ids of the selected
  nodes, the messages posted to the UI so far, and whether the plugin was closed.\<close>

record state =
  sequences :: "sequence list"
  selectedSequence :: string
  currentPage :: node
  selection :: "string list"
  posted :: "ui_msg list"
  closed :: bool

text \<open>How a handler run ends: it ran to its end, it posted an error and returned, it
  returned silently, or it threw (both font loads were rejected).\<close>

datatype outcome = Done | Rejected | Ignored | Threw

section \<open>Storage helpers\<close>

definition getSequences :: "state \<Rightarrow> sequence list" where
  "getSequences st = sequences st"

definition saveSequences :: "sequence list \<Rightarrow> state \<Rightarrow> state" where
  "saveSequences seqs st = st\<lparr>sequences := seqs\<rparr>"

definition getSelectedId :: "state \<Rightarrow> string option" where
  "getSelectedId st = (if selectedSequence st = [] then None else Some (selectedSequence st))"

definition setSelectedId :: "string option \<Rightarrow> state \<Rightarrow> state" where
  "setSelectedId i st = st\<lparr>selectedSequence := (case i of None \<Rightarrow> [] | Some x \<Rightarrow> x)\<rparr>"

definition digit36_char :: "nat \<Rightarrow> char" where
  "digit36_char d = (if d < 10 then char_of (48 + d) else char_of (87 + d))"

fun digits36_of :: "nat \<Rightarrow> string" where
  "digits36_of n =
     (if n < 36 then [digit36_char n] else digits36_of (n div 36) @ [digit36_char (n mod 36)])"

declare digits36_of.simps [simp del]

definition generateId :: "env \<Rightarrow> string" where
  "generateId e = ''seq_'' @ digits36_of (now e) @ random e"

text \<open>\<open>sequences.find(s => s.id === i)\<close>.\<close>

definition find_sequence :: "string \<Rightarrow> sequence list \<Rightarrow> sequence option" where
  "find_sequence i seqs = find (\<lambda>s. seq_id s = i) seqs"

definition postMessage :: "ui_msg \<Rightarrow> state \<Rightarrow> state" where
  "postMessage m st = st\<lparr>posted := posted st @ [m]\<rparr>"

text \<open>The first element of the array that satisfies \<open>P\<close> is the object \<open>find\<close> returns;
  the handlers mutate it and save the array.\<close>

fun update_first :: "('a \<Rightarrow> bool) \<Rightarrow> ('a \<Rightarrow> 'a) \<Rightarrow> 'a list \<Rightarrow> 'a list" where
  "update_first P f [] = []"
| "update_first P f (x # xs) = (if P x then f x # xs else x # update_first P f xs)"

section \<open>Node helpers\<close>

text \<open>\<open>figma.currentPage.selection\<close>: the selected nodes of the page.\<close>

definition selected_nodes :: "state \<Rightarrow> node_data list" where
  "selected_nodes st =
     List.map_filter (\<lambda>i. find (\<lambda>d. node_id d = i) (nodes_of (currentPage st))) (selection st)"

text \<open>The test \<open>selection.length !== 1 || selection[0].type !== 'TEXT'\<close>, giving the node
  when it passes.\<close>

definition single_text :: "node_data list \<Rightarrow> node_data option" where
  "single_text sel =
     (case sel of [n] \<Rightarrow> if node_type n = ''TEXT'' then Some n else None | _ \<Rightarrow> None)"

definition getNodeLinkData :: "node_data \<Rightarrow> (string \<times> string \<times> string) option" where
  "getNodeLinkData n =
     (if node_type n \<noteq> ''TEXT'' then None
      else if sequenceId n = [] then None
      else Some (sequenceId n, stampedValue n, stampedAt n))"

definition setNodeLinkData :: "env \<Rightarrow> node_data \<Rightarrow> string \<Rightarrow> string \<Rightarrow> state \<Rightarrow> state" where
  "setNodeLinkData e n sid sv st =
     st\<lparr>currentPage := update_node (node_id n)
           (\<lambda>d. d\<lparr>sequenceId := sid, stampedValue := sv,
                  stampedAt := number_toString (Num (int (now e)))\<rparr>)
           (currentPage st)\<rparr>"

definition clearNodeLinkData :: "node_data \<Rightarrow> state \<Rightarrow> state" where
  "clearNodeLinkData n st =
     st\<lparr>currentPage := update_node (node_id n)
           (\<lambda>d. d\<lparr>sequenceId := [], stampedValue := [], stampedAt := []\<rparr>) (currentPage st)\<rparr>"

definition setCharacters :: "node_data \<Rightarrow> string \<Rightarrow> state \<Rightarrow> state" where
  "setCharacters n s st =
     st\<lparr>currentPage := update_node (node_id n) (\<lambda>d. d\<lparr>characters := s\<rparr>) (currentPage st)\<rparr>"

text \<open>The inner \<open>searchNode\<close> of \<open>isStampedValueDuplicated\<close>, with the counter it
  increments passed through.\<close>

fun searchNode_count :: "string \<Rightarrow> string \<Rightarrow> node \<Rightarrow> nat \<Rightarrow> nat" where
  "searchNode_count value excludeNodeId (Node d kids) count =
     fold (searchNode_count value excludeNodeId) kids
       (if node_type d = ''TEXT'' \<and> node_id d \<noteq> excludeNodeId \<and> stampedValue d = value
        then count + 1 else count)"

definition isStampedValueDuplicated :: "string \<Rightarrow> string \<Rightarrow> state \<Rightarrow> bool" where
  "isStampedValueDuplicated value excludeNodeId st =
     (searchNode_count value excludeNodeId (currentPage st) 0 > 0)"

text \<open>The inner \<open>searchNode\<close> of \<open>findNodesLinkedToSequence\<close>, with the array it pushes
  to passed through.\<close>

fun searchNode_linked :: "string \<Rightarrow> node \<Rightarrow> node_data list \<Rightarrow> node_data list" where
  "searchNode_linked sid (Node d kids) nodes =
     fold (searchNode_linked sid) kids
       (if node_type d = ''TEXT'' \<and> sequenceId d = sid then nodes @ [d] else nodes)"

definition findNodesLinkedToSequence :: "string \<Rightarrow> state \<Rightarrow> node_data list" where
  "findNodesLinkedToSequence sid st = searchNode_linked sid (currentPage st) []"

section \<open>Selection analysis\<close>

definition analyzeSelection :: "state \<Rightarrow> analysis" where
  "analyzeSelection st =
     (case selected_nodes st of
        [n] \<Rightarrow>
          if node_type n \<noteq> ''TEXT'' then NotText
          else (case getNodeLinkData n of
              None \<Rightarrow> Unlinked (node_id n) (characters n)
            | Some (sid, sv, sa) \<Rightarrow>
                (case find_sequence sid (getSequences st) of
                   None \<Rightarrow> BrokenLink (node_id n) sv
                 | Some sequence \<Rightarrow>
                     let isDuplicate = (sv \<noteq> [] \<and> isStampedValueDuplicated sv (node_id n) st)
                     in if isDuplicate \<or> sv = [] then NeedsStamp (node_id n) sequence isDuplicate
                        else StampedState (node_id n) sequence sv))
      | _ \<Rightarrow> StateNone)"

definition sendSelectionState :: "state \<Rightarrow> state" where
  "sendSelectionState st =
     (let analysis = analyzeSelection st;
          seqs = getSequences st;
          selectedId = getSelectedId st;
          selectedSeq = (case selectedId of None \<Rightarrow> None
                         | Some i \<Rightarrow> find_sequence i seqs)
      in postMessage (SelectionState analysis seqs selectedId selectedSeq) st)"


section \<open>Message handlers\<close>

text \<open>Each handler is one branch of \<open>figma.ui.onmessage\<close>. It returns how the run ended
  and the state it left.\<close>

definition select_sequence :: "string \<Rightarrow> state \<Rightarrow> outcome \<times> state" where
  "select_sequence i st = (Done, sendSelectionState (setSelectedId (Some i) st))"

definition create_sequence ::
  "env \<Rightarrow> string \<Rightarrow> string option \<Rightarrow> string \<Rightarrow> string \<Rightarrow> string \<Rightarrow> state \<Rightarrow> outcome \<times> state" where
  "create_sequence e msg_name msg_prefix startValue sequenceType msg_mode st =
     (let seqs = getSequences st;
          newSeq = \<lparr>seq_id = generateId e,
                    name = trim msg_name,
                    prefix = trim (case msg_prefix of None \<Rightarrow> [] | Some p \<Rightarrow> p),
                    nextValue = trim startValue,
                    highestUsed = ''0'',
                    type = sequenceType,
                    mode = msg_mode,
                    locked = False,
                    createdAt = now e\<rparr>;
          st1 = saveSequences (seqs @ [newSeq]) st;
          st2 = setSelectedId (Some (seq_id newSeq)) st1;
          st3 = postMessage (SequenceCreated newSeq) st2
      in (Done, sendSelectionState st3))"

definition delete_sequence :: "string \<Rightarrow> state \<Rightarrow> outcome \<times> state" where
  "delete_sequence i st =
     (let seqs = getSequences st
      in (case find_sequence i seqs of
            None \<Rightarrow> (Ignored, st)
          | Some sequence \<Rightarrow>
              (let linkedNodes = findNodesLinkedToSequence i st
               in if mode sequence = ''compliance'' \<and> length linkedNodes > 0
                  then (Rejected,
                        postMessage (Error (''Cannot delete: ''
                            @ number_toString (Num (int (length linkedNodes)))
                            @ '' document(s) are linked to this sequence'')) st)
                  else
                    (let seqs' = filter (\<lambda>s. seq_id s \<noteq> i) seqs;
                         st1 = saveSequences seqs' st;
                         newSelectedId = (case seqs' of [] \<Rightarrow> None | s # _ \<Rightarrow> Some (seq_id s));
                         st2 = setSelectedId newSelectedId st1;
                         st3 = postMessage SequenceDeleted st2
                     in (Done, sendSelectionState st3)))))"

text \<open>The sequence update both stamp handlers start with: the next value is incremented,
  and the watermark is raised when the stamped value without its prefix compares greater.\<close>

definition advance :: "string \<Rightarrow> sequence \<Rightarrow> sequence" where
  "advance stampValue sequence =
     (let s1 = sequence\<lparr>nextValue := incrementValue sequence\<rparr>
      in if js_gt (compareValues (replace stampValue (prefix s1) []) (highestUsed s1) (type s1)) (Num 0)
         then s1\<lparr>highestUsed := replace stampValue (prefix s1) []\<rparr>
         else s1)"

definition link_and_stamp :: "env \<Rightarrow> string \<Rightarrow> state \<Rightarrow> outcome \<times> state" where
  "link_and_stamp e sid st =
     (case single_text (selected_nodes st) of
        None \<Rightarrow> (Rejected, postMessage (Error ''Select a single text layer'') st)
      | Some n \<Rightarrow>
          (let seqs = getSequences st
           in (case find_sequence sid seqs of
                 None \<Rightarrow> (Rejected, postMessage (Error ''Sequence not found'') st)
               | Some sequence \<Rightarrow>
                   (let stampValue = getFullValue sequence
                    in if \<not> (fontLoads e \<or> fallbackLoads e) then (Threw, st)
                       else
                         (let st1 = setCharacters n stampValue st;
                              st2 = setNodeLinkData e n (seq_id sequence) stampValue st1;
                              s2 = advance stampValue sequence;
                              s3 = (if mode s2 = ''compliance'' then s2\<lparr>locked := True\<rparr> else s2);
                              st3 = saveSequences
                                      (update_first (\<lambda>s. seq_id s = sid) (\<lambda>_. s3) seqs) st2;
                              st4 = postMessage (Stamped stampValue s3) st3
                          in (Done, sendSelectionState st4))))))"

definition stamp :: "env \<Rightarrow> state \<Rightarrow> outcome \<times> state" where
  "stamp e st =
     (case single_text (selected_nodes st) of
        None \<Rightarrow> (Rejected, postMessage (Error ''Select a text layer'') st)
      | Some n \<Rightarrow>
          (case getNodeLinkData n of
             None \<Rightarrow> (Rejected, postMessage (Error ''Text is not linked'') st)
           | Some (link_sid, link_sv, link_at) \<Rightarrow>
               (let seqs = getSequences st
                in (case find_sequence link_sid seqs of
                      None \<Rightarrow> (Rejected, postMessage (Error ''Linked sequence not found'') st)
                    | Some sequence \<Rightarrow>
                        if mode sequence = ''compliance'' \<and> link_sv \<noteq> []
                           \<and> \<not> isStampedValueDuplicated link_sv (node_id n) st
                        then (Rejected, postMessage (Error ''Cannot re-stamp in compliance mode'') st)
                        else
                          (let stampValue = getFullValue sequence
                           in if \<not> (fontLoads e \<or> fallbackLoads e) then (Threw, st)
                              else
                                (let st1 = setCharacters n stampValue st;
                                     st2 = setNodeLinkData e n (seq_id sequence) stampValue st1;
                                     s2 = advance stampValue sequence;
                                     st3 = saveSequences
                                             (update_first (\<lambda>s. seq_id s = link_sid) (\<lambda>_. s2) seqs) st2;
                                     st4 = postMessage (Stamped stampValue s2) st3
                                 in (Done, sendSelectionState st4)))))))"

definition unlink :: "state \<Rightarrow> outcome \<times> state" where
  "unlink st =
     (case single_text (selected_nodes st) of
        None \<Rightarrow> (Ignored, st)
      | Some n \<Rightarrow>
          (Done, sendSelectionState (postMessage UnlinkedMsg (clearNodeLinkData n st))))"

definition relink :: "string \<Rightarrow> state \<Rightarrow> outcome \<times> state" where
  "relink newSequenceId st =
     (case single_text (selected_nodes st) of
        None \<Rightarrow> (Ignored, st)
      | Some n \<Rightarrow>
          (let st1 = st\<lparr>currentPage := update_node (node_id n)
                          (\<lambda>d. d\<lparr>sequenceId := newSequenceId\<rparr>) (currentPage st)\<rparr>
           in (Done, sendSelectionState (postMessage Relinked st1))))"

definition reset :: "string \<Rightarrow> string \<Rightarrow> state \<Rightarrow> outcome \<times> state" where
  "reset sid value st =
     (let seqs = getSequences st
      in (case find_sequence sid seqs of
            None \<Rightarrow> (Ignored, st)
          | Some sequence \<Rightarrow>
              if mode sequence = ''compliance''
                 \<and> js_le (parseInt value) (parseInt (highestUsed sequence))
              then (Rejected,
                    postMessage (Error (''Cannot set below highest used (''
                        @ prefix sequence @ highestUsed sequence @ '')'')) st)
              else
                (let s1 = sequence\<lparr>nextValue := trim value\<rparr>;
                     st1 = saveSequences (update_first (\<lambda>s. seq_id s = sid) (\<lambda>_. s1) seqs) st;
                     st2 = postMessage (ResetDone s1) st1
                 in (Done, sendSelectionState st2))))"

definition onmessage :: "env \<Rightarrow> msg \<Rightarrow> state \<Rightarrow> outcome \<times> state" where
  "onmessage e m st =
     (case m of
        SelectSequence i \<Rightarrow> select_sequence i st
      | CreateSequence n p v t md \<Rightarrow> create_sequence e n p v t md st
      | DeleteSequence i \<Rightarrow> delete_sequence i st
      | LinkAndStamp sid \<Rightarrow> link_and_stamp e sid st
      | Stamp \<Rightarrow> stamp e st
      | Unlink \<Rightarrow> unlink st
      | Relink sid \<Rightarrow> relink sid st
      | Reset sid v \<Rightarrow> reset sid v st
      | Close \<Rightarrow> (Done, st\<lparr>closed := True\<rparr>))"

section \<open>Notions the specification uses\<close>



text \<open>Bijective base-26 numeration: \<open>A\<close> is 1, \<open>Z\<close> is 26, and a string denotes the
  number its letters spell from the most significant position. Its order on strings of
  upper-case letters is the order in which a letter sequence is meant to run:
  \<open>A\<close>, ..., \<open>Z\<close>, \<open>AA\<close>, \<open>AB\<close>, ...\<close>

definition letter_value :: "char \<Rightarrow> nat" where
  "letter_value c = code c - 64"

definition bijective26 :: "string \<Rightarrow> nat" where
  "bijective26 s = foldl (\<lambda>acc c. 26 * acc + letter_value c) 0 s"

text \<open>A text element linked to the sequence with id \<open>i\<close>.\<close>

definition linked_to :: "string \<Rightarrow> node_data \<Rightarrow> bool" where
  "linked_to i d = (node_type d = ''TEXT'' \<and> sequenceId d = i)"


text \<open>Syntactic validity of a value for a sequence type: one or more decimal digits for
  \<open>number\<close>, one or more upper-case letters for \<open>letter\<close>.\<close>

definition valid_value :: "string \<Rightarrow> string \<Rightarrow> bool" where
  "valid_value t v =
     (if t = ''number'' then v \<noteq> [] \<and> list_all is_digit v
      else if t = ''letter'' then v \<noteq> [] \<and> list_all is_upper v
      else True)"

definition valid_sequence :: "sequence \<Rightarrow> bool" where
  "valid_sequence s = valid_value (type s) (nextValue s)"

text \<open>The value a request brings is valid for the sequence it is meant for: the start
  value of a create request, and the value of a reset request for a sequence of the
  store, both as stored, that is, trimmed.\<close>

definition request_valid :: "msg \<Rightarrow> state \<Rightarrow> bool" where
  "request_valid m st =
     (case m of
        CreateSequence n p v t md \<Rightarrow> valid_value t (trim v)
      | Reset sid v \<Rightarrow>
          (case find_sequence sid (sequences st) of
             None \<Rightarrow> True
           | Some s \<Rightarrow> valid_value (type s) (trim v))
      | _ \<Rightarrow> True)"

text \<open>The next value of a number sequence is below \<open>2^53\<close>, where the numbers of the host
  are exact.\<close>

definition exact_range :: "sequence \<Rightarrow> bool" where
  "exact_range s = (if type s = ''number'' then digits_value (nextValue s) < 9007199254740992 else True)"

text \<open>What a handler may do to a sequence it keeps: the id, the type and the mode stay,
  the watermark stays or goes to a value that compares greater, and a lock stays.\<close>

definition carried_on :: "sequence \<Rightarrow> sequence \<Rightarrow> bool" where
  "carried_on s s' =
     (seq_id s' = seq_id s \<and> type s' = type s \<and> mode s' = mode s
      \<and> (highestUsed s' = highestUsed s
           \<or> js_gt (compareValues (highestUsed s') (highestUsed s) (type s)) (Num 0))
      \<and> (locked s \<longrightarrow> locked s'))"

section \<open>Example documents\<close>

text \<open>A page with one frame that holds text layers, an invoice sequence in compliance
  mode, and runs of messages on them.\<close>

definition page_data :: node_data where
  "page_data = \<lparr>node_id = ''0:1'', node_type = ''PAGE'', sequenceId = [], stampedValue = [],
                 stampedAt = [], characters = []\<rparr>"

definition frame_data :: node_data where
  "frame_data = \<lparr>node_id = ''1:1'', node_type = ''FRAME'', sequenceId = [], stampedValue = [],
                  stampedAt = [], characters = []\<rparr>"

definition text_data :: "string \<Rightarrow> string \<Rightarrow> string \<Rightarrow> node_data" where
  "text_data i sid sv = \<lparr>node_id = i, node_type = ''TEXT'', sequenceId = sid, stampedValue = sv,
                         stampedAt = (if sv = [] then [] else ''1700000000000''),
                         characters = (if sv = [] then ''Number'' else sv)\<rparr>"

definition document :: "node_data list \<Rightarrow> string list \<Rightarrow> sequence list \<Rightarrow> state" where
  "document texts sel seqs =
     \<lparr>sequences = seqs, selectedSequence = [],
      currentPage = Node page_data [Node frame_data (map (\<lambda>d. Node d []) texts)],
      selection = sel, posted = [], closed = False\<rparr>"

definition invoices :: sequence where
  "invoices = \<lparr>seq_id = ''seq_a'', name = ''Invoice#'', prefix = ''INV-'', nextValue = ''0100'',
                highestUsed = ''0099'', type = ''number'', mode = ''compliance'', locked = True,
                createdAt = 0\<rparr>"

definition state_one :: state where
  "state_one = document [text_data ''1:2'' ''seq_a'' ''INV-0099''] [''1:2''] [invoices]"


definition state_unused :: state where
  "state_unused = document [text_data ''1:2'' [] []] [''1:2''] [invoices]"

definition state_blank :: state where
  "state_blank = document [text_data ''1:2'' [] [], text_data ''1:3'' [] []] [''1:2''] []"

definition env0 :: env where
  "env0 = \<lparr>now = 1000, random = ''k3j9x'', fontLoads = True, fallbackLoads = True\<rparr>"

definition run :: "env \<Rightarrow> msg list \<Rightarrow> state \<Rightarrow> state" where
  "run e ms st = foldl (\<lambda>s m. snd (onmessage e m s)) st ms"

definition stamped_values :: "ui_msg list \<Rightarrow> string list" where
  "stamped_values ms = List.map_filter (\<lambda>m. case m of Stamped v s \<Rightarrow> Some v | _ \<Rightarrow> None) ms"

definition revision_messages :: "string \<Rightarrow> msg list" where
  "revision_messages start =
     [CreateSequence ''Revision'' None start ''letter'' ''compliance'',
      LinkAndStamp (generateId env0)]"

definition create_and_relink :: "msg list" where
  "create_and_relink =
     [CreateSequence ''Invoice#'' (Some ''INV-'') ''0001'' ''number'' ''compliance'',
      Relink (generateId env0)]"

section \<open>Properties of the increment engine\<close>


lemma code_digit_char: "d < 10 \<Longrightarrow> code (digit_char d) = 48 + d"
  by (simp add: code_def digit_char_def)

lemma is_digit_digit_char: "d < 10 \<Longrightarrow> is_digit (digit_char d)"
  by (simp add: is_digit_def code_digit_char)

lemma digit_value_digit_char: "d < 10 \<Longrightarrow> digit_value (digit_char d) = d"
  by (simp add: digit_value_def code_digit_char)

lemma digits_value_snoc: "digits_value (ds @ [c]) = 10 * digits_value ds + digit_value c"
  by (simp add: digits_value_def)

lemma digits_of_digits: "\<forall>c\<in>set (digits_of n). is_digit c"
proof (induction n rule: digits_of.induct)
  case (1 n)
  show ?case
  proof (cases "n < 10")
    case True
    then show ?thesis by (subst digits_of.simps) (simp add: is_digit_digit_char)
  next
    case False
    with 1 show ?thesis by (subst digits_of.simps) (simp add: is_digit_digit_char)
  qed
qed

lemma digits_value_digits_of: "digits_value (digits_of n) = n"
proof (induction n rule: digits_of.induct)
  case (1 n)
  show ?case
  proof (cases "n < 10")
    case True
    then show ?thesis by (subst digits_of.simps) (simp add: digits_value_def digit_value_digit_char)
  next
    case False
    with 1 show ?thesis
      by (subst digits_of.simps) (simp add: digits_value_snoc digit_value_digit_char)
  qed
qed



lemma digits_value_zeros: "digits_value (replicate k (CHR ''0'') @ ds) = digits_value ds"
proof (induction k)
  case 0 show ?case by simp
next
  case (Suc k)
  have "\<And>a. foldl (\<lambda>acc c. 10 * acc + digit_value c) 0 (CHR ''0'' # a) = foldl (\<lambda>acc c. 10 * acc + digit_value c) 0 a"
    by (simp add: digit_value_def code_def)
  with Suc show ?case by (simp add: digits_value_def)
qed

lemma digit_not_whitespace: "is_digit c \<Longrightarrow> \<not> is_whitespace c"
  by (auto simp: is_digit_def is_whitespace_def)

lemma digit_not_sign: "is_digit c \<Longrightarrow> c \<noteq> CHR ''+'' \<and> c \<noteq> CHR ''-''"
  by (auto simp: is_digit_def code_def)

lemma parseInt_digits:
  assumes "v \<noteq> []" and "\<forall>c\<in>set v. is_digit c"
  shows "parseInt v = Num (int (digits_value v))"
proof -
  from assms obtain c cs where v: "v = c # cs" by (cases v) auto
  with assms have c: "is_digit c" by simp
  have tw: "takeWhile is_digit v = v" using assms(2) by (simp add: takeWhile_eq_all_conv)
  have dw: "dropWhile is_whitespace v = v" using v c by (simp add: digit_not_whitespace)
  have hd: "hd v \<noteq> CHR ''+''" "hd v \<noteq> CHR ''-''" using v digit_not_sign[OF c] by simp_all
  have "parseInt v = (if takeWhile is_digit v = [] then NaN else Num (1 * int (digits_value (takeWhile is_digit v))))"
    unfolding parseInt_def dw Let_def using hd by simp
  also have "\<dots> = Num (int (digits_value v))" unfolding tw using assms(1) by simp
  finally show ?thesis .
qed


lemma incrementNumber_digits:
  assumes "v \<noteq> []" and "\<forall>c\<in>set v. is_digit c"
  shows "incrementNumber v = padStart (length v) (CHR ''0'') (digits_of (digits_value v + 1))"
  by (simp add: incrementNumber_def parseInt_digits[OF assms] js_add_def number_toString_def nat_add_distrib)

lemma is_digit_zero: "is_digit (CHR ''0'')"
  by (simp add: is_digit_def code_def)

lemma padStart_digits:
  "\<forall>c\<in>set ds. is_digit c \<Longrightarrow> \<forall>c\<in>set (padStart n (CHR ''0'') ds). is_digit c"
  by (auto simp: padStart_def is_digit_zero)

lemma digits_of_nonempty: "digits_of n \<noteq> []"
  by (subst digits_of.simps) simp

lemma incrementNumber_all_digits:
  assumes "v \<noteq> []" and "\<forall>c\<in>set v. is_digit c"
  shows "incrementNumber v \<noteq> [] \<and> (\<forall>c\<in>set (incrementNumber v). is_digit c)"
  unfolding incrementNumber_digits[OF assms]
  using padStart_digits[OF digits_of_digits] by (simp add: padStart_def digits_of_nonempty)

lemma parseInt_incrementNumber:
  assumes "v \<noteq> []" and "\<forall>c\<in>set v. is_digit c"
  shows "parseInt (incrementNumber v) = Num (int (digits_value v) + 1)"
proof -
  note d = incrementNumber_all_digits[OF assms]
  have "parseInt (incrementNumber v) = Num (int (digits_value (incrementNumber v)))"
    using parseInt_digits d by blast
  also have "digits_value (incrementNumber v) = digits_value v + 1"
    unfolding incrementNumber_digits[OF assms] padStart_def
    by (simp add: digits_value_zeros digits_value_digits_of)
  finally show ?thesis by simp
qed




lemma bijective26_snoc: "bijective26 (xs @ [c]) = 26 * bijective26 xs + letter_value c"
  by (simp add: bijective26_def)

lemma bijective26_Nil: "bijective26 [] = 0"
  by (simp add: bijective26_def)

lemma bijective26_append: "bijective26 (xs @ ys) = bijective26 xs * 26 ^ length ys + bijective26 ys"
proof (induction ys rule: rev_induct)
  case Nil
  show ?case by (simp add: bijective26_Nil)
next
  case (snoc y ys)
  have "bijective26 (xs @ ys @ [y]) = 26 * bijective26 (xs @ ys) + letter_value y"
    using bijective26_snoc[of "xs @ ys" y] by simp
  with snoc show ?case by (simp add: bijective26_snoc algebra_simps)
qed

lemma letter_value_range: "is_upper c \<Longrightarrow> 1 \<le> letter_value c \<and> letter_value c \<le> 26"
  by (auto simp: is_upper_def letter_value_def)

lemma code_inj: "code c = code d \<Longrightarrow> c = d"
  by (simp add: code_def)

lemma letter_value_inj:
  "is_upper c \<Longrightarrow> is_upper d \<Longrightarrow> letter_value c = letter_value d \<Longrightarrow> c = d"
  by (rule code_inj) (auto simp: is_upper_def letter_value_def)

lemma bijective26_inj:
  "\<forall>c\<in>set xs. is_upper c \<Longrightarrow> \<forall>c\<in>set ys. is_upper c \<Longrightarrow> bijective26 xs = bijective26 ys \<Longrightarrow> xs = ys"
proof (induction xs arbitrary: ys rule: rev_induct)
  case Nil
  show ?case
  proof (cases ys rule: rev_cases)
    case Nil
    then show ?thesis by simp
  next
    case (snoc zs d)
    with Nil.prems have "is_upper d" by simp
    from letter_value_range[OF this] Nil.prems(3) snoc show ?thesis
      by (simp add: bijective26_snoc bijective26_Nil)
  qed
next
  case (snoc c xs)
  from snoc.prems have uc: "is_upper c" by simp
  show ?case
  proof (cases ys rule: rev_cases)
    case Nil
    with letter_value_range[OF uc] snoc.prems(3) show ?thesis
      by (simp add: bijective26_snoc bijective26_Nil)
  next
    case (snoc zs d)
    with snoc.prems have ud: "is_upper d" and uz: "\<forall>c\<in>set zs. is_upper c" by simp_all
    from snoc.prems(3) snoc
    have eq: "26 * bijective26 xs + letter_value c = 26 * bijective26 zs + letter_value d"
      by (simp add: bijective26_snoc)
    from letter_value_range[OF uc] letter_value_range[OF ud] eq
    have "bijective26 xs = bijective26 zs \<and> letter_value c = letter_value d" by presburger
    then have "xs = zs" and "c = d"
      using snoc.IH[OF _ uz] snoc.prems(1) letter_value_inj[OF uc ud] by simp_all
    with snoc show ?thesis by simp
  qed
qed

lemma loop_exit: "incrementLetter_loop chars 0 = CHR ''A'' # chars"
  by simp

lemma loop_bump:
  "c \<noteq> CHR ''Z'' \<Longrightarrow>
   incrementLetter_loop (ys @ [c] @ rest) (Suc (length ys)) = ys @ [char_of (code c + 1)] @ rest"
  by (simp add: nth_append list_update_append)

lemma loop_roll:
  "incrementLetter_loop (ys @ replicate m (CHR ''Z'') @ rest) (length ys + m)
   = incrementLetter_loop (ys @ replicate m (CHR ''A'') @ rest) (length ys)"
proof (induction m arbitrary: rest)
  case 0
  show ?case by simp
next
  case (Suc m)
  have sp: "ys @ replicate (Suc m) (CHR ''Z'') @ rest = (ys @ replicate m (CHR ''Z'')) @ CHR ''Z'' # rest"
    by (simp add: replicate_append_same)
  have n: "(ys @ replicate (Suc m) (CHR ''Z'') @ rest) ! (length ys + m) = CHR ''Z''"
    unfolding sp by (simp add: nth_append)
  have u: "(ys @ replicate (Suc m) (CHR ''Z'') @ rest)[length ys + m := CHR ''A'']
           = ys @ replicate m (CHR ''Z'') @ (CHR ''A'' # rest)"
    unfolding sp by (simp add: list_update_append)
  have "incrementLetter_loop (ys @ replicate (Suc m) (CHR ''Z'') @ rest) (length ys + Suc m)
        = incrementLetter_loop (ys @ replicate m (CHR ''Z'') @ (CHR ''A'' # rest)) (length ys + m)"
    using n u by simp
  also have "\<dots> = incrementLetter_loop (ys @ replicate m (CHR ''A'') @ (CHR ''A'' # rest)) (length ys)"
    by (rule Suc.IH)
  also have "ys @ replicate m (CHR ''A'') @ (CHR ''A'' # rest) = ys @ replicate (Suc m) (CHR ''A'') @ rest"
    by (simp add: replicate_append_same)
  finally show ?case .
qed

lemma toUpperCase_upper: "\<forall>c\<in>set v. is_upper c \<Longrightarrow> toUpperCase v = v"
  by (induction v) (auto simp: toUpperCase_def toUpperCase_char_def is_upper_def)

lemma incrementLetter_carry:
  assumes "\<forall>x\<in>set (ys @ [c] @ replicate m (CHR ''Z'')). is_upper x" and "c \<noteq> CHR ''Z''"
  shows "incrementLetter (ys @ [c] @ replicate m (CHR ''Z''))
         = ys @ [char_of (code c + 1)] @ replicate m (CHR ''A'')"
proof -
  have "incrementLetter (ys @ [c] @ replicate m (CHR ''Z''))
        = incrementLetter_loop ((ys @ [c]) @ replicate m (CHR ''Z'') @ []) (length (ys @ [c]) + m)"
    unfolding incrementLetter_def toUpperCase_upper[OF assms(1)] by simp
  also have "\<dots> = incrementLetter_loop ((ys @ [c]) @ replicate m (CHR ''A'') @ []) (length (ys @ [c]))"
    by (rule loop_roll)
  also have "\<dots> = incrementLetter_loop (ys @ [c] @ replicate m (CHR ''A'')) (Suc (length ys))"
    by simp
  also have "\<dots> = ys @ [char_of (code c + 1)] @ replicate m (CHR ''A'')"
    by (rule loop_bump[OF assms(2)])
  finally show ?thesis .
qed

lemma incrementLetter_all_Z:
  "incrementLetter (replicate m (CHR ''Z'')) = replicate (Suc m) (CHR ''A'')"
proof -
  have up: "\<forall>c\<in>set (replicate m (CHR ''Z'')). is_upper c"
    by (simp add: is_upper_def code_def)
  have "incrementLetter (replicate m (CHR ''Z''))
        = incrementLetter_loop ([] @ replicate m (CHR ''Z'') @ []) (length ([]::string) + m)"
    unfolding incrementLetter_def toUpperCase_upper[OF up] by simp
  also have "\<dots> = incrementLetter_loop ([] @ replicate m (CHR ''A'') @ []) (length ([]::string))"
    by (rule loop_roll)
  finally show ?thesis by simp
qed

lemma trailing_Z:
  "(\<exists>m. v = replicate m (CHR ''Z'')) \<or> (\<exists>ys c m. v = ys @ [c] @ replicate m (CHR ''Z'') \<and> c \<noteq> CHR ''Z'')"
proof (induction v rule: rev_induct)
  case Nil
  have "[] = replicate 0 (CHR ''Z'')" by simp
  then show ?case by blast
next
  case (snoc x xs)
  show ?case
  proof (cases "x = CHR ''Z''")
    case False
    then have "xs @ [x] = xs @ [x] @ replicate 0 (CHR ''Z'') \<and> x \<noteq> CHR ''Z''" by simp
    then show ?thesis by blast
  next
    case True
    from snoc.IH show ?thesis
    proof
      assume "\<exists>m. xs = replicate m (CHR ''Z'')"
      then obtain m where "xs = replicate m (CHR ''Z'')" ..
      with True have "xs @ [x] = replicate (Suc m) (CHR ''Z'')"
        by (simp add: replicate_append_same)
      then show ?thesis by blast
    next
      assume "\<exists>ys c m. xs = ys @ [c] @ replicate m (CHR ''Z'') \<and> c \<noteq> CHR ''Z''"
      then obtain ys c m where "xs = ys @ [c] @ replicate m (CHR ''Z'')" "c \<noteq> CHR ''Z''" by blast
      with True have "xs @ [x] = ys @ [c] @ replicate (Suc m) (CHR ''Z'') \<and> c \<noteq> CHR ''Z''"
        by (simp add: replicate_append_same)
      then show ?thesis by blast
    qed
  qed
qed

lemma rolled_value:
  "bijective26 (replicate m (CHR ''Z'')) + 1 = 26 ^ m + bijective26 (replicate m (CHR ''A''))"
proof (induction m)
  case 0
  show ?case by (simp add: bijective26_Nil)
next
  case (Suc m)
  have z: "bijective26 (replicate (Suc m) (CHR ''Z'')) = 26 * bijective26 (replicate m (CHR ''Z'')) + 26"
    using bijective26_snoc[of "replicate m (CHR ''Z'')" "CHR ''Z''"]
    by (simp add: replicate_append_same letter_value_def code_def)
  have a: "bijective26 (replicate (Suc m) (CHR ''A'')) = 26 * bijective26 (replicate m (CHR ''A'')) + 1"
    using bijective26_snoc[of "replicate m (CHR ''A'')" "CHR ''A''"]
    by (simp add: replicate_append_same letter_value_def code_def)
  show ?case unfolding z a using Suc by simp
qed

lemma upper_succ:
  assumes "is_upper c" and "c \<noteq> CHR ''Z''"
  shows "is_upper (char_of (code c + 1)) \<and> letter_value (char_of (code c + 1)) = letter_value c + 1"
proof -
  have "code c \<noteq> 90"
  proof
    assume "code c = 90"
    then have "code c = code (CHR ''Z'')" by (simp add: code_def)
    with assms(2) show False using code_inj by blast
  qed
  with assms(1) have r: "65 \<le> code c" "code c \<le> 89" by (simp_all add: is_upper_def)
  then have "code (char_of (code c + 1)) = code c + 1" by (simp add: code_def)
  with r show ?thesis by (simp add: is_upper_def letter_value_def)
qed


lemma incrementLetter_upper_value:
  assumes "\<forall>c\<in>set v. is_upper c"
  shows "(\<forall>c\<in>set (incrementLetter v). is_upper c) \<and> bijective26 (incrementLetter v) = bijective26 v + 1"
proof -
  have A: "is_upper (CHR ''A'')" by (simp add: is_upper_def code_def)
  from trailing_Z[of v] show ?thesis
  proof
    assume "\<exists>m. v = replicate m (CHR ''Z'')"
    then obtain m where v: "v = replicate m (CHR ''Z'')" ..
    have r: "incrementLetter v = replicate (Suc m) (CHR ''A'')"
      unfolding v by (rule incrementLetter_all_Z)
    have "bijective26 (replicate (Suc m) (CHR ''A'')) = bijective26 ([CHR ''A''] @ replicate m (CHR ''A''))"
      by simp
    also have "\<dots> = 26 ^ m + bijective26 (replicate m (CHR ''A''))"
      unfolding bijective26_append by (simp add: bijective26_def letter_value_def code_def)
    also have "\<dots> = bijective26 (replicate m (CHR ''Z'')) + 1" by (rule rolled_value[symmetric])
    finally have "bijective26 (incrementLetter v) = bijective26 v + 1" using r v by simp
    moreover have "\<forall>c\<in>set (incrementLetter v). is_upper c" unfolding r using A by simp
    ultimately show ?thesis by simp
  next
    assume "\<exists>ys c m. v = ys @ [c] @ replicate m (CHR ''Z'') \<and> c \<noteq> CHR ''Z''"
    then obtain ys c m where v: "v = ys @ [c] @ replicate m (CHR ''Z'')" and c: "c \<noteq> CHR ''Z''"
      by blast
    from assms v have uc: "is_upper c" and uys: "\<forall>x\<in>set ys. is_upper x" by simp_all
    have r: "incrementLetter v = ys @ [char_of (code c + 1)] @ replicate m (CHR ''A'')"
      unfolding v by (rule incrementLetter_carry[OF assms[unfolded v] c])
    note s = upper_succ[OF uc c]
    have up: "\<forall>x\<in>set (incrementLetter v). is_upper x" unfolding r using uys s A by auto
    have "bijective26 (incrementLetter v)
          = (26 * bijective26 ys + (letter_value c + 1)) * 26 ^ m + bijective26 (replicate m (CHR ''A''))"
      unfolding r using bijective26_append[of "ys @ [char_of (code c + 1)]" "replicate m (CHR ''A'')"] s
      by (simp add: bijective26_snoc)
    also have "\<dots> = (26 * bijective26 ys + letter_value c) * 26 ^ m + (26 ^ m + bijective26 (replicate m (CHR ''A'')))"
      by (simp add: algebra_simps)
    also have "\<dots> = (26 * bijective26 ys + letter_value c) * 26 ^ m + (bijective26 (replicate m (CHR ''Z'')) + 1)"
      by (simp only: rolled_value)
    also have "\<dots> = bijective26 v + 1"
      unfolding v using bijective26_append[of "ys @ [c]" "replicate m (CHR ''Z'')"]
      by (simp add: bijective26_snoc)
    finally show ?thesis using up by simp
  qed
qed

text \<open>
  Claim C8. For every non-empty string \<open>v\<close> of upper-case letters, \<open>incrementLetter v\<close> is
  again a string of upper-case letters, its bijective base-26 value is that of \<open>v\<close> plus
  one, and it is the only such string. It is computed from the right: the last letter
  that is not \<open>Z\<close> is advanced and every \<open>Z\<close> after it becomes \<open>A\<close>; when all letters are
  \<open>Z\<close>, all become \<open>A\<close> and one more \<open>A\<close> is put in front. So \<open>Z\<close> gives \<open>AA\<close>, \<open>AZ\<close>
  gives \<open>BA\<close> and \<open>ZZ\<close> gives \<open>AAA\<close>.
\<close>

theorem incrementLetter_successor:
  assumes "v \<noteq> []" and "\<forall>c\<in>set v. is_upper c"
  shows "(\<forall>c\<in>set (incrementLetter v). is_upper c)
       \<and> bijective26 (incrementLetter v) = bijective26 v + 1
       \<and> (\<forall>w. (\<forall>c\<in>set w. is_upper c) \<and> bijective26 w = bijective26 v + 1 \<longrightarrow> w = incrementLetter v)
       \<and> (\<forall>ys c m. v = ys @ [c] @ replicate m (CHR ''Z'') \<and> c \<noteq> CHR ''Z''
            \<longrightarrow> incrementLetter v = ys @ [char_of (code c + 1)] @ replicate m (CHR ''A''))
       \<and> (\<forall>m. v = replicate m (CHR ''Z'') \<longrightarrow> incrementLetter v = replicate (Suc m) (CHR ''A''))
       \<and> incrementLetter ''Z'' = ''AA'' \<and> incrementLetter ''AZ'' = ''BA''
       \<and> incrementLetter ''ZZ'' = ''AAA''"
proof -
  note uv = incrementLetter_upper_value[OF assms(2)]
  have uniq: "\<forall>w. (\<forall>c\<in>set w. is_upper c) \<and> bijective26 w = bijective26 v + 1 \<longrightarrow> w = incrementLetter v"
  proof (intro allI impI)
    fix w assume w: "(\<forall>c\<in>set w. is_upper c) \<and> bijective26 w = bijective26 v + 1"
    then have "bijective26 w = bijective26 (incrementLetter v)" using uv by simp
    from bijective26_inj[OF _ _ this] w uv show "w = incrementLetter v" by blast
  qed
  have carry: "\<forall>ys c m. v = ys @ [c] @ replicate m (CHR ''Z'') \<and> c \<noteq> CHR ''Z''
            \<longrightarrow> incrementLetter v = ys @ [char_of (code c + 1)] @ replicate m (CHR ''A'')"
    using incrementLetter_carry assms(2) by blast
  have allz: "\<forall>m. v = replicate m (CHR ''Z'') \<longrightarrow> incrementLetter v = replicate (Suc m) (CHR ''A'')"
    using incrementLetter_all_Z by blast
  have e1: "incrementLetter ''Z'' = ''AA''" by code_simp
  have e2: "incrementLetter ''AZ'' = ''BA''" by code_simp
  have e3: "incrementLetter ''ZZ'' = ''AAA''" by code_simp
  from uv uniq carry allz e1 e2 e3 show ?thesis by blast
qed

theorem incrementLetter_successor_witness:
  "bijective26 ''AZ'' = 52 \<and> bijective26 (incrementLetter ''AZ'') = 53"
proof -
  have 1: "''AZ'' \<noteq> []" by simp
  have 2: "\<forall>c\<in>set ''AZ''. is_upper c" by (simp add: is_upper_def code_def)
  have v: "bijective26 ''AZ'' = 52" by (simp add: bijective26_def letter_value_def code_def)
  note t = incrementLetter_successor[OF 1 2]
  from t[THEN conjunct2, THEN conjunct1] v show ?thesis by simp
qed

text \<open>
  Claim C6. \<open>compareValues v (increment v)\<close> is meant to be negative for every valid value.
  For the letter value \<open>Z\<close>, whose successor is \<open>AA\<close>, it is positive: the comparison of
  letter values is by characters, and puts \<open>AA\<close> before \<open>Z\<close>.
\<close>

theorem compareValues_letter_Z:
  "compareValues ''Z'' (incrementLetter ''Z'') ''letter'' = Num 1"
  by code_simp

text \<open>For numbers the comparison does follow the increment order.\<close>

lemma compareValues_number_successor:
  assumes "v \<noteq> []" and "\<forall>c\<in>set v. is_digit c" and "digits_value v < 2 ^ 53"
  shows "js_lt (compareValues v (incrementNumber v) ''number'') (Num 0)"
  by (simp add: compareValues_def js_sub_def js_lt_def parseInt_digits[OF assms(1,2)]
        parseInt_incrementNumber[OF assms(1,2)])

section \<open>Properties of the node helpers\<close>

lemma fold_searchNode_linked:
  assumes "\<And>k acc. k \<in> set kids \<Longrightarrow>
     searchNode_linked i k acc = acc @ filter (\<lambda>d. node_type d = ''TEXT'' \<and> sequenceId d = i) (nodes_of k)"
  shows "fold (searchNode_linked i) kids acc
     = acc @ filter (\<lambda>d. node_type d = ''TEXT'' \<and> sequenceId d = i) (concat (map nodes_of kids))"
  using assms by (induction kids arbitrary: acc) simp_all

lemma searchNode_linked_filter:
  "searchNode_linked i t acc = acc @ filter (\<lambda>d. node_type d = ''TEXT'' \<and> sequenceId d = i) (nodes_of t)"
proof (induction t arbitrary: acc)
  case (Node d kids)
  show ?case using fold_searchNode_linked[of kids i, OF Node] by simp
qed

lemma findNodesLinkedToSequence_filter:
  "findNodesLinkedToSequence i st = filter (linked_to i) (nodes_of (currentPage st))"
proof -
  have "linked_to i = (\<lambda>d. node_type d = ''TEXT'' \<and> sequenceId d = i)"
    by (rule ext) (simp add: linked_to_def)
  then show ?thesis by (simp add: findNodesLinkedToSequence_def searchNode_linked_filter)
qed




lemma nodes_of_update_node:
  "nodes_of (update_node i f t) = map (\<lambda>d. if node_id d = i then f d else d) (nodes_of t)"
proof (induction t)
  case (Node d kids)
  then have e: "map (nodes_of \<circ> update_node i f) kids
             = map (map (\<lambda>d. if node_id d = i then f d else d) \<circ> nodes_of) kids"
    by (intro map_cong) simp_all
  show ?case by (simp add: map_concat, simp only: e)
qed

lemma find_map_id:
  assumes "\<And>d. node_id (g d) = node_id d"
  shows "find (\<lambda>d. node_id d = i) (map g xs) = map_option g (find (\<lambda>d. node_id d = i) xs)"
  using assms by (induction xs) simp_all

lemma map_filter_map_option:
  "List.map_filter (\<lambda>i. map_option g (h i)) xs = map g (List.map_filter h xs)"
  by (induction xs) (auto simp: List.map_filter_def split: option.splits)

lemma selected_nodes_update:
  assumes "\<And>d. node_id (f d) = node_id d"
  shows "selected_nodes (st\<lparr>currentPage := update_node i f (currentPage st)\<rparr>)
         = map (\<lambda>d. if node_id d = i then f d else d) (selected_nodes st)"
proof -
  have g: "\<And>d. node_id ((\<lambda>d. if node_id d = i then f d else d) d) = node_id d"
    using assms by simp
  show ?thesis
    unfolding selected_nodes_def
    by (simp add: nodes_of_update_node find_map_id[of "\<lambda>d. if node_id d = i then f d else d", OF g]
        map_filter_map_option)
qed

section \<open>Properties of the handlers\<close>

lemma postMessage_fields:
  "sequences (postMessage m st) = sequences st"
  "currentPage (postMessage m st) = currentPage st"
  "selection (postMessage m st) = selection st"
  "selectedSequence (postMessage m st) = selectedSequence st"
  "posted (postMessage m st) = posted st @ [m]"
  by (simp_all add: postMessage_def)

lemma sendSelectionState_fields:
  "sequences (sendSelectionState st) = sequences st"
  "currentPage (sendSelectionState st) = currentPage st"
  "selection (sendSelectionState st) = selection st"
  "selectedSequence (sendSelectionState st) = selectedSequence st"
  by (simp_all add: sendSelectionState_def Let_def postMessage_fields)

lemma saveSequences_fields:
  "sequences (saveSequences xs st) = xs"
  "currentPage (saveSequences xs st) = currentPage st"
  "selection (saveSequences xs st) = selection st"
  "posted (saveSequences xs st) = posted st"
  by (simp_all add: saveSequences_def)

lemma setSelectedId_fields:
  "sequences (setSelectedId i st) = sequences st"
  "currentPage (setSelectedId i st) = currentPage st"
  "selection (setSelectedId i st) = selection st"
  "posted (setSelectedId i st) = posted st"
  by (simp_all add: setSelectedId_def)

lemma find_sequence_filter_out: "find_sequence i (filter (\<lambda>s. seq_id s \<noteq> i) xs) = None"
  by (induction xs) (simp_all add: find_sequence_def)

lemma single_text_one: "node_type n = ''TEXT'' \<Longrightarrow> single_text [n] = Some n"
  by (simp add: single_text_def)




lemma posted_sendSelectionState:
  "posted (sendSelectionState st)
   = posted st @ [SelectionState (analyzeSelection st) (sequences st) (getSelectedId st)
       (case getSelectedId st of None \<Rightarrow> None | Some i \<Rightarrow> find_sequence i (sequences st))]"
  by (simp add: sendSelectionState_def Let_def postMessage_def getSequences_def)

lemma analyzeSelection_cong:
  assumes "currentPage st' = currentPage st" and "selection st' = selection st"
    and "sequences st' = sequences st"
  shows "analyzeSelection st' = analyzeSelection st"
proof -
  have a: "selected_nodes st' = selected_nodes st"
    using assms by (simp add: selected_nodes_def)
  have b: "getSequences st' = getSequences st"
    using assms by (simp add: getSequences_def)
  have c: "\<And>v x. isStampedValueDuplicated v x st' = isStampedValueDuplicated v x st"
    using assms by (simp add: isStampedValueDuplicated_def)
  show ?thesis unfolding analyzeSelection_def a b c ..
qed

lemma analyzeSelection_sent: "analyzeSelection (sendSelectionState st) = analyzeSelection st"
  by (rule analyzeSelection_cong) (simp_all add: sendSelectionState_fields)

lemma analyzeSelection_posted: "analyzeSelection (postMessage m st) = analyzeSelection st"
  by (rule analyzeSelection_cong) (simp_all add: postMessage_fields)

lemma find_sequence_member: "find_sequence i xs = Some s \<Longrightarrow> s \<in> set xs \<and> seq_id s = i"
  by (induction xs) (auto simp: find_sequence_def split: if_splits)

lemma list_all_update_first:
  "list_all Q xs \<Longrightarrow> Q y \<Longrightarrow> list_all Q (update_first P (\<lambda>_. y) xs)"
  by (induction xs) simp_all

lemma incrementValue_valid:
  assumes "valid_sequence s"
  shows "valid_value (type s) (incrementValue s)"
proof (cases "type s = ''letter''")
  case True
  with assms have u: "\<forall>c\<in>set (nextValue s). is_upper c"
    by (simp add: valid_sequence_def valid_value_def list_all_iff)
  from incrementLetter_upper_value[OF u] have "\<forall>c\<in>set (incrementLetter (nextValue s)). is_upper c"
    and "bijective26 (incrementLetter (nextValue s)) \<noteq> 0" by simp_all
  then have "incrementLetter (nextValue s) \<noteq> [] \<and> list_all is_upper (incrementLetter (nextValue s))"
    by (auto simp: list_all_iff bijective26_Nil)
  with True show ?thesis by (simp add: valid_value_def incrementValue_def)
next
  case False
  show ?thesis
  proof (cases "type s = ''number''")
    case True
    with assms have "nextValue s \<noteq> []" "\<forall>c\<in>set (nextValue s). is_digit c"
      by (simp_all add: valid_sequence_def valid_value_def list_all_iff)
    from incrementNumber_all_digits[OF this] True show ?thesis
      by (simp add: valid_value_def incrementValue_def list_all_iff)
  next
    case False
    with \<open>type s \<noteq> ''letter''\<close> show ?thesis by (simp add: valid_value_def)
  qed
qed

lemma advance_fields:
  "type (advance sv s) = type s" "nextValue (advance sv s) = incrementValue s"
  "mode (advance sv s) = mode s" "locked (advance sv s) = locked s"
  "seq_id (advance sv s) = seq_id s" "prefix (advance sv s) = prefix s"
  by (simp_all add: advance_def Let_def)

lemma advance_valid: "valid_sequence s \<Longrightarrow> valid_sequence (advance sv s)"
  using incrementValue_valid[of s] by (simp add: valid_sequence_def advance_fields)

lemma valid_link_and_stamp:
  assumes "list_all valid_sequence (sequences st)"
  shows "list_all valid_sequence (sequences (snd (link_and_stamp e sid st)))"
proof (cases "single_text (selected_nodes st)")
  case None
  with assms show ?thesis by (simp add: link_and_stamp_def postMessage_fields)
next
  case (Some n)
  show ?thesis
  proof (cases "find_sequence sid (sequences st)")
    case None
    with Some assms show ?thesis
      by (simp add: link_and_stamp_def getSequences_def postMessage_fields)
  next
    case found: (Some s)
    from find_sequence_member[OF found] assms have "valid_sequence s" by (simp add: list_all_iff)
    then have v: "valid_sequence (advance (getFullValue s) s)" by (rule advance_valid)
    then have v': "valid_sequence ((advance (getFullValue s) s)\<lparr>locked := True\<rparr>)"
      by (simp add: valid_sequence_def)
    from Some found assms v v' show ?thesis
      by (simp add: link_and_stamp_def getSequences_def Let_def sendSelectionState_fields
          postMessage_fields saveSequences_fields list_all_update_first)
  qed
qed

lemma valid_stamp:
  assumes "list_all valid_sequence (sequences st)"
  shows "list_all valid_sequence (sequences (snd (stamp e st)))"
proof (cases "single_text (selected_nodes st)")
  case None
  with assms show ?thesis by (simp add: stamp_def postMessage_fields)
next
  case (Some n)
  show ?thesis
  proof (cases "getNodeLinkData n")
    case None
    with Some assms show ?thesis by (simp add: stamp_def postMessage_fields)
  next
    case link: (Some l)
    obtain a b c where l: "l = (a, b, c)" by (cases l) auto
    show ?thesis
    proof (cases "find_sequence a (sequences st)")
      case None
      with Some link l assms show ?thesis
        by (simp add: stamp_def getSequences_def postMessage_fields)
    next
      case found: (Some s)
      from find_sequence_member[OF found] assms have "valid_sequence s" by (simp add: list_all_iff)
      then have v: "valid_sequence (advance (getFullValue s) s)" by (rule advance_valid)
      from Some link l found assms v show ?thesis
        by (simp add: stamp_def getSequences_def Let_def sendSelectionState_fields
            postMessage_fields saveSequences_fields list_all_update_first)
    qed
  qed
qed

lemma valid_reset:
  assumes "list_all valid_sequence (sequences st)" and "request_valid (Reset sid v) st"
  shows "list_all valid_sequence (sequences (snd (reset sid v st)))"
proof (cases "find_sequence sid (sequences st)")
  case None
  with assms show ?thesis by (simp add: reset_def getSequences_def)
next
  case (Some s)
  with assms(2) have "valid_sequence (s\<lparr>nextValue := trim v\<rparr>)"
    by (simp add: request_valid_def valid_sequence_def)
  with Some assms(1) show ?thesis
    by (simp add: reset_def getSequences_def Let_def sendSelectionState_fields
        postMessage_fields saveSequences_fields list_all_update_first)
qed

lemma valid_delete:
  assumes "list_all valid_sequence (sequences st)"
  shows "list_all valid_sequence (sequences (snd (delete_sequence i st)))"
proof (cases "find_sequence i (sequences st)")
  case None
  with assms show ?thesis by (simp add: delete_sequence_def getSequences_def)
next
  case (Some s)
  from assms have "list_all valid_sequence (filter (\<lambda>s. seq_id s \<noteq> i) (sequences st))"
    by (simp add: list_all_iff)
  with Some assms show ?thesis
    by (simp add: delete_sequence_def getSequences_def Let_def sendSelectionState_fields
        postMessage_fields saveSequences_fields setSelectedId_fields)
qed

lemma valid_create:
  assumes "list_all valid_sequence (sequences st)" and "request_valid (CreateSequence n p v t md) st"
  shows "list_all valid_sequence (sequences (snd (create_sequence e n p v t md st)))"
  using assms
  by (simp add: create_sequence_def getSequences_def Let_def sendSelectionState_fields
      postMessage_fields saveSequences_fields setSelectedId_fields request_valid_def
      valid_sequence_def)

lemma nextValue_validity_step:
  assumes "list_all valid_sequence (sequences st)" and "request_valid m st"
  shows "list_all valid_sequence (sequences (snd (onmessage e m st)))"
proof (cases m)
  case (SelectSequence i)
  with assms show ?thesis
    by (simp add: onmessage_def select_sequence_def sendSelectionState_fields setSelectedId_fields)
next
  case (CreateSequence n p v t md)
  with assms valid_create show ?thesis by (simp add: onmessage_def)
next
  case (DeleteSequence i)
  with assms valid_delete show ?thesis by (simp add: onmessage_def)
next
  case (LinkAndStamp sid)
  with assms valid_link_and_stamp show ?thesis by (simp add: onmessage_def)
next
  case Stamp
  with assms valid_stamp show ?thesis by (simp add: onmessage_def)
next
  case Unlink
  with assms show ?thesis
    by (simp add: onmessage_def unlink_def sendSelectionState_fields postMessage_fields
        clearNodeLinkData_def split: option.splits)
next
  case (Relink sid)
  with assms show ?thesis
    by (simp add: onmessage_def relink_def Let_def sendSelectionState_fields postMessage_fields
        split: option.splits)
next
  case (Reset sid v)
  with assms valid_reset show ?thesis by (simp add: onmessage_def)
next
  case Close
  with assms show ?thesis by (simp add: onmessage_def)
qed

lemma replace_prefix: "replace (p @ v) p [] = v"
proof (cases "p @ v")
  case Nil
  then show ?thesis by simp
next
  case (Cons a list)
  have "take (length p) (p @ v) = p" and "drop (length p) (p @ v) = v" by simp_all
  then have "take (length p) (a # list) = p" and "drop (length p) (a # list) = v"
    unfolding Cons by simp_all
  then show ?thesis unfolding Cons by simp
qed

lemma advance_watermark:
  "highestUsed (advance (getFullValue s) s)
   = (if js_gt (compareValues (nextValue s) (highestUsed s) (type s)) (Num 0)
      then nextValue s else highestUsed s)"
  by (simp add: advance_def Let_def getFullValue_def replace_prefix)

lemma advance_never_lowers:
  "highestUsed (advance (getFullValue s) s) = highestUsed s
   \<or> js_gt (compareValues (highestUsed (advance (getFullValue s) s)) (highestUsed s) (type s)) (Num 0)"
  by (simp add: advance_watermark)

lemma find_sequence_update_first:
  "find_sequence i xs = Some s \<Longrightarrow> seq_id y = i
   \<Longrightarrow> find_sequence i (update_first (\<lambda>x. seq_id x = i) (\<lambda>_. y) xs) = Some y"
  by (induction xs) (auto simp: find_sequence_def split: if_splits)

lemma link_and_stamp_locks:
  assumes "fst (link_and_stamp e sid st) = Done"
    and "find_sequence sid (sequences st) = Some s" and "mode s = ''compliance''"
  shows "find_sequence sid (sequences (snd (link_and_stamp e sid st)))
         = Some ((advance (getFullValue s) s)\<lparr>locked := True\<rparr>)"
proof (cases "single_text (selected_nodes st)")
  case None
  with assms(1) show ?thesis by (simp add: link_and_stamp_def)
next
  case (Some n)
  from find_sequence_member[OF assms(2)] have "seq_id s = sid" by simp
  with Some assms show ?thesis
    by (auto simp: link_and_stamp_def getSequences_def Let_def sendSelectionState_fields
        postMessage_fields saveSequences_fields advance_fields find_sequence_update_first
        split: if_splits)
qed

lemma trim_digits:
  assumes "v \<noteq> []" and "\<forall>c\<in>set v. is_digit c"
  shows "trim v = v"
proof -
  from assms have h: "\<not> is_whitespace (hd v)" and l: "\<not> is_whitespace (last v)"
    by (simp_all add: digit_not_whitespace)
  from assms(1) h have a: "dropWhile is_whitespace v = v" by (cases v) simp_all
  from assms(1) l have "\<not> is_whitespace (hd (rev v))" by (simp add: hd_rev)
  with assms(1) have b: "dropWhile is_whitespace (rev v) = rev v" by (cases "rev v") simp_all
  show ?thesis by (simp add: trim_def a b)
qed

lemma reset_number_guard:
  assumes "find_sequence sid (sequences st) = Some s" and "mode s = ''compliance''"
    and "v \<noteq> []" and "\<forall>c\<in>set v. is_digit c"
    and "highestUsed s \<noteq> []" and "\<forall>c\<in>set (highestUsed s). is_digit c"
  shows "(digits_value v \<le> digits_value (highestUsed s) \<longrightarrow>
            reset sid v st
              = (Rejected, st\<lparr>posted := posted st @ [Error (''Cannot set below highest used (''
                    @ prefix s @ highestUsed s @ '')'')]\<rparr>))
       \<and> (digits_value (highestUsed s) < digits_value v \<longrightarrow>
            fst (reset sid v st) = Done
          \<and> sequences (snd (reset sid v st))
              = update_first (\<lambda>x. seq_id x = sid) (\<lambda>_. s\<lparr>nextValue := v\<rparr>) (sequences st))"
  using assms(1,2)
  by (simp add: reset_def getSequences_def Let_def parseInt_digits[OF assms(3,4)]
      parseInt_digits[OF assms(5,6)] js_le_def trim_digits[OF assms(3,4)] postMessage_def
      sendSelectionState_fields saveSequences_fields)

lemma reset_design:
  assumes "find_sequence sid (sequences st) = Some s" and "mode s \<noteq> ''compliance''"
  shows "fst (reset sid v st) = Done
       \<and> sequences (snd (reset sid v st))
           = update_first (\<lambda>x. seq_id x = sid) (\<lambda>_. s\<lparr>nextValue := trim v\<rparr>) (sequences st)"
  using assms
  by (simp add: reset_def getSequences_def Let_def postMessage_fields
      sendSelectionState_fields saveSequences_fields)

text \<open>Every message carries every sequence of the store on in this sense, or the
  sequence is the one a create request has just made, with the watermark \<open>0\<close> and no
  lock.\<close>

lemma carried_on_refl: "carried_on s s"
  by (simp add: carried_on_def)

lemma set_update_first: "set (update_first P (\<lambda>_. y) xs) \<subseteq> insert y (set xs)"
  by (induction xs) auto

lemma carried_on_advance: "carried_on s (advance (getFullValue s) s)"
  using advance_never_lowers[of s] by (simp add: carried_on_def advance_fields)

lemma carried_on_advance_locked: "carried_on s ((advance (getFullValue s) s)\<lparr>locked := True\<rparr>)"
  using advance_never_lowers[of s] by (simp add: carried_on_def advance_fields)

lemma carried_on_update_first:
  assumes "s' \<in> set (update_first P (\<lambda>_. y) xs)" and "s \<in> set xs" and "carried_on s y"
  shows "\<exists>s\<in>set xs. carried_on s s'"
proof -
  from assms(1) set_update_first[of P y xs] have "s' = y \<or> s' \<in> set xs" by auto
  then show ?thesis
  proof
    assume "s' = y"
    with assms(2,3) show ?thesis by blast
  next
    assume "s' \<in> set xs"
    then show ?thesis using carried_on_refl by blast
  qed
qed

lemma carried_same:
  assumes "sequences st' = sequences st" and "s' \<in> set (sequences st')"
  shows "\<exists>s\<in>set (sequences st). carried_on s s'"
  using assms carried_on_refl by auto

lemma carried_link_and_stamp:
  assumes "s' \<in> set (sequences (snd (link_and_stamp e sid st)))"
  shows "\<exists>s\<in>set (sequences st). carried_on s s'"
proof (cases "single_text (selected_nodes st)")
  case None
  then have "sequences (snd (link_and_stamp e sid st)) = sequences st"
    by (simp add: link_and_stamp_def postMessage_fields)
  from carried_same[OF this assms] show ?thesis .
next
  case (Some n)
  show ?thesis
  proof (cases "find_sequence sid (sequences st)")
    case None
    with Some have "sequences (snd (link_and_stamp e sid st)) = sequences st"
      by (simp add: link_and_stamp_def getSequences_def postMessage_fields)
    from carried_same[OF this assms] show ?thesis .
  next
    case found: (Some s)
    from find_sequence_member[OF found] have mem: "s \<in> set (sequences st)" by simp
    show ?thesis
    proof (cases "fontLoads e \<or> fallbackLoads e")
      case False
      with Some found have "sequences (snd (link_and_stamp e sid st)) = sequences st"
        by (simp add: link_and_stamp_def getSequences_def Let_def)
      from carried_same[OF this assms] show ?thesis .
    next
      case True
      let ?y = "if mode (advance (getFullValue s) s) = ''compliance''
                then (advance (getFullValue s) s)\<lparr>locked := True\<rparr>
                else advance (getFullValue s) s"
      from True Some found
      have "sequences (snd (link_and_stamp e sid st))
            = update_first (\<lambda>x. seq_id x = sid) (\<lambda>_. ?y) (sequences st)"
        by (simp add: link_and_stamp_def getSequences_def Let_def sendSelectionState_fields
            postMessage_fields saveSequences_fields)
      with assms have in_upd: "s' \<in> set (update_first (\<lambda>x. seq_id x = sid) (\<lambda>_. ?y) (sequences st))"
        by simp
      have "carried_on s ?y" using carried_on_advance carried_on_advance_locked by simp
      from carried_on_update_first[OF in_upd mem this] show ?thesis .
    qed
  qed
qed

lemma carried_stamp:
  assumes "s' \<in> set (sequences (snd (stamp e st)))"
  shows "\<exists>s\<in>set (sequences st). carried_on s s'"
proof (cases "single_text (selected_nodes st)")
  case None
  then have "sequences (snd (stamp e st)) = sequences st"
    by (simp add: stamp_def postMessage_fields)
  from carried_same[OF this assms] show ?thesis .
next
  case (Some n)
  show ?thesis
  proof (cases "getNodeLinkData n")
    case None
    with Some have "sequences (snd (stamp e st)) = sequences st"
      by (simp add: stamp_def postMessage_fields)
    from carried_same[OF this assms] show ?thesis .
  next
    case link: (Some l)
    obtain a b c where l: "l = (a, b, c)" by (cases l) auto
    show ?thesis
    proof (cases "find_sequence a (sequences st)")
      case None
      with Some link l have "sequences (snd (stamp e st)) = sequences st"
        by (simp add: stamp_def getSequences_def postMessage_fields)
      from carried_same[OF this assms] show ?thesis .
    next
      case found: (Some s)
      from find_sequence_member[OF found] have mem: "s \<in> set (sequences st)" by simp
      from Some link l found
      have "sequences (snd (stamp e st)) = sequences st
            \<or> sequences (snd (stamp e st))
               = update_first (\<lambda>x. seq_id x = a) (\<lambda>_. advance (getFullValue s) s) (sequences st)"
        by (simp add: stamp_def getSequences_def Let_def sendSelectionState_fields
            postMessage_fields saveSequences_fields)
      then show ?thesis
      proof
        assume "sequences (snd (stamp e st)) = sequences st"
        from carried_same[OF this assms] show ?thesis .
      next
        assume "sequences (snd (stamp e st))
               = update_first (\<lambda>x. seq_id x = a) (\<lambda>_. advance (getFullValue s) s) (sequences st)"
        with assms have "s' \<in> set (update_first (\<lambda>x. seq_id x = a)
                                   (\<lambda>_. advance (getFullValue s) s) (sequences st))" by simp
        from carried_on_update_first[OF this mem carried_on_advance] show ?thesis .
      qed
    qed
  qed
qed

lemma carried_reset:
  assumes "s' \<in> set (sequences (snd (reset sid v st)))"
  shows "\<exists>s\<in>set (sequences st). carried_on s s'"
proof (cases "find_sequence sid (sequences st)")
  case None
  then have "sequences (snd (reset sid v st)) = sequences st"
    by (simp add: reset_def getSequences_def)
  from carried_same[OF this assms] show ?thesis .
next
  case (Some s)
  from find_sequence_member[OF Some] have mem: "s \<in> set (sequences st)" by simp
  from Some
  have "sequences (snd (reset sid v st)) = sequences st
        \<or> sequences (snd (reset sid v st))
           = update_first (\<lambda>x. seq_id x = sid) (\<lambda>_. s\<lparr>nextValue := trim v\<rparr>) (sequences st)"
    by (simp add: reset_def getSequences_def Let_def sendSelectionState_fields
        postMessage_fields saveSequences_fields)
  then show ?thesis
  proof
    assume "sequences (snd (reset sid v st)) = sequences st"
    from carried_same[OF this assms] show ?thesis .
  next
    assume "sequences (snd (reset sid v st))
           = update_first (\<lambda>x. seq_id x = sid) (\<lambda>_. s\<lparr>nextValue := trim v\<rparr>) (sequences st)"
    with assms have i: "s' \<in> set (update_first (\<lambda>x. seq_id x = sid)
                               (\<lambda>_. s\<lparr>nextValue := trim v\<rparr>) (sequences st))" by simp
    have "carried_on s (s\<lparr>nextValue := trim v\<rparr>)" by (simp add: carried_on_def)
    from carried_on_update_first[OF i mem this] show ?thesis .
  qed
qed

lemma carried_delete:
  assumes "s' \<in> set (sequences (snd (delete_sequence i st)))"
  shows "\<exists>s\<in>set (sequences st). carried_on s s'"
proof -
  have "set (sequences (snd (delete_sequence i st))) \<subseteq> set (sequences st)"
    by (auto simp: delete_sequence_def getSequences_def Let_def sendSelectionState_fields
        postMessage_fields saveSequences_fields setSelectedId_fields split: option.splits if_splits)
  with assms show ?thesis using carried_on_refl by blast
qed

lemma watermark_step:
  assumes "s' \<in> set (sequences (snd (onmessage e m st)))"
  shows "(\<exists>s\<in>set (sequences st). carried_on s s')
       \<or> (highestUsed s' = ''0'' \<and> \<not> locked s' \<and> (\<exists>n p v t md. m = CreateSequence n p v t md))"
proof (cases m)
  case (SelectSequence i)
  then have "sequences (snd (onmessage e m st)) = sequences st"
    by (simp add: onmessage_def select_sequence_def sendSelectionState_fields setSelectedId_fields)
  from carried_same[OF this assms] show ?thesis ..
next
  case (CreateSequence n p v t md)
  then have "sequences (snd (onmessage e m st))
      = sequences st @ [\<lparr>seq_id = generateId e, name = trim n,
                          prefix = trim (case p of None \<Rightarrow> [] | Some x \<Rightarrow> x),
                          nextValue = trim v, highestUsed = ''0'', type = t, mode = md,
                          locked = False, createdAt = now e\<rparr>]"
    by (simp add: onmessage_def create_sequence_def getSequences_def Let_def
        sendSelectionState_fields postMessage_fields saveSequences_fields setSelectedId_fields)
  with assms CreateSequence show ?thesis using carried_on_refl by auto
next
  case (DeleteSequence i)
  with assms carried_delete show ?thesis by (simp add: onmessage_def)
next
  case (LinkAndStamp sid)
  with assms carried_link_and_stamp show ?thesis by (simp add: onmessage_def)
next
  case Stamp
  with assms carried_stamp show ?thesis by (simp add: onmessage_def)
next
  case Unlink
  then have "sequences (snd (onmessage e m st)) = sequences st"
    by (simp add: onmessage_def unlink_def sendSelectionState_fields postMessage_fields
        clearNodeLinkData_def split: option.splits)
  from carried_same[OF this assms] show ?thesis ..
next
  case (Relink sid)
  then have "sequences (snd (onmessage e m st)) = sequences st"
    by (simp add: onmessage_def relink_def Let_def sendSelectionState_fields postMessage_fields
        split: option.splits)
  from carried_same[OF this assms] show ?thesis ..
next
  case (Reset sid v)
  with assms carried_reset show ?thesis by (simp add: onmessage_def)
next
  case Close
  then have "sequences (snd (onmessage e m st)) = sequences st" by (simp add: onmessage_def)
  from carried_same[OF this assms] show ?thesis ..
qed

section \<open>Deleting a sequence\<close>

text \<open>
  Claim C5. For a sequence of the store in compliance mode, a delete request is rejected exactly
  when some text element of the current page is linked to it; the rejection posts an
  error that names the number of linked elements and changes nothing else, so the
  persisted collection is as before. When no text element is linked to it, or when the
  sequence is not in compliance mode (as every design-mode sequence), the request runs
  to its end and the persisted collection is the old one without the sequences of that
  id.
\<close>

theorem delete_sequence_guard:
  assumes "find_sequence i (sequences st) = Some sequence"
  shows "(mode sequence = ''compliance'' \<longrightarrow>
            (fst (delete_sequence i st) = Rejected)
              = (\<exists>d\<in>set (nodes_of (currentPage st)). linked_to i d))
       \<and> (mode sequence = ''compliance'' \<and> (\<exists>d\<in>set (nodes_of (currentPage st)). linked_to i d) \<longrightarrow>
            delete_sequence i st
              = (Rejected, st\<lparr>posted := posted st @ [Error (''Cannot delete: ''
                   @ digits_of (length (filter (linked_to i) (nodes_of (currentPage st))))
                   @ '' document(s) are linked to this sequence'')]\<rparr>))
       \<and> (mode sequence \<noteq> ''compliance'' \<or> \<not> (\<exists>d\<in>set (nodes_of (currentPage st)). linked_to i d) \<longrightarrow>
            fst (delete_sequence i st) = Done
          \<and> sequences (snd (delete_sequence i st)) = filter (\<lambda>s. seq_id s \<noteq> i) (sequences st)
          \<and> find_sequence i (sequences (snd (delete_sequence i st))) = None)"
proof -
  let ?linked = "filter (linked_to i) (nodes_of (currentPage st))"
  have ex: "(\<exists>d\<in>set (nodes_of (currentPage st)). linked_to i d) = (0 < length ?linked)"
    by (auto simp: filter_empty_conv)
  show ?thesis
  proof (cases "mode sequence = ''compliance'' \<and> 0 < length ?linked")
    case True
    then have "delete_sequence i st
        = (Rejected, st\<lparr>posted := posted st @ [Error (''Cannot delete: ''
                   @ digits_of (length ?linked)
                   @ '' document(s) are linked to this sequence'')]\<rparr>)"
      using assms
      by (simp add: delete_sequence_def getSequences_def Let_def findNodesLinkedToSequence_filter
          postMessage_def number_toString_def)
    with True ex show ?thesis by simp
  next
    case False
    then have "delete_sequence i st
        = (Done, sendSelectionState (postMessage SequenceDeleted
             (setSelectedId (case filter (\<lambda>s. seq_id s \<noteq> i) (sequences st) of [] \<Rightarrow> None
                              | s # _ \<Rightarrow> Some (seq_id s))
                (saveSequences (filter (\<lambda>s. seq_id s \<noteq> i) (sequences st)) st))))"
      using assms
      by (simp add: delete_sequence_def getSequences_def Let_def findNodesLinkedToSequence_filter)
    then have "fst (delete_sequence i st) = Done"
      and "sequences (snd (delete_sequence i st)) = filter (\<lambda>s. seq_id s \<noteq> i) (sequences st)"
      by (simp_all add: sendSelectionState_fields postMessage_fields setSelectedId_fields
          saveSequences_fields)
    with False ex show ?thesis by (auto simp: find_sequence_filter_out)
  qed
qed

theorem delete_sequence_guard_witness:
  "fst (delete_sequence ''seq_a'' state_one) = Rejected
   \<and> posted (snd (delete_sequence ''seq_a'' state_one))
       = [Error ''Cannot delete: 1 document(s) are linked to this sequence'']
   \<and> sequences (snd (delete_sequence ''seq_a'' state_one)) = [invoices]
   \<and> fst (delete_sequence ''seq_a'' state_unused) = Done
   \<and> sequences (snd (delete_sequence ''seq_a'' state_unused)) = []"
proof -
  have f: "find_sequence ''seq_a'' (sequences state_one) = Some invoices" by code_simp
  have m: "mode invoices = ''compliance''" by (simp add: invoices_def)
  have l: "filter (linked_to ''seq_a'') (nodes_of (currentPage state_one))
           = [text_data ''1:2'' ''seq_a'' ''INV-0099'']" by code_simp
  then have ex: "\<exists>d\<in>set (nodes_of (currentPage state_one)). linked_to ''seq_a'' d"
  proof -
    have "text_data ''1:2'' ''seq_a'' ''INV-0099''
          \<in> set (filter (linked_to ''seq_a'') (nodes_of (currentPage state_one)))"
      unfolding l by simp
    then show ?thesis by auto
  qed
  have d: "digits_of (Suc 0) = ''1''" by code_simp
  have s: "sequences state_one = [invoices]" "posted state_one = []"
    by (simp_all add: state_one_def document_def)
  from delete_sequence_guard[OF f, THEN conjunct2, THEN conjunct1] m ex
  have "delete_sequence ''seq_a'' state_one
      = (Rejected, state_one\<lparr>posted := posted state_one @ [Error (''Cannot delete: ''
           @ digits_of (length (filter (linked_to ''seq_a'') (nodes_of (currentPage state_one))))
           @ '' document(s) are linked to this sequence'')]\<rparr>)" by blast
  then have one: "fst (delete_sequence ''seq_a'' state_one) = Rejected
      \<and> posted (snd (delete_sequence ''seq_a'' state_one))
          = [Error ''Cannot delete: 1 document(s) are linked to this sequence'']
      \<and> sequences (snd (delete_sequence ''seq_a'' state_one)) = [invoices]"
    unfolding l by (simp add: d s)
  have f': "find_sequence ''seq_a'' (sequences state_unused) = Some invoices" by code_simp
  have none: "\<not> (\<exists>d\<in>set (nodes_of (currentPage state_unused)). linked_to ''seq_a'' d)"
    by code_simp
  have gone: "filter (\<lambda>s. seq_id s \<noteq> ''seq_a'') (sequences state_unused) = []" by code_simp
  from delete_sequence_guard[OF f', THEN conjunct2, THEN conjunct2] none
  have "fst (delete_sequence ''seq_a'' state_unused) = Done
      \<and> sequences (snd (delete_sequence ''seq_a'' state_unused))
          = filter (\<lambda>s. seq_id s \<noteq> ''seq_a'') (sequences state_unused)" by blast
  with one gone show ?thesis by simp
qed

section \<open>Stamping an element again\<close>



section \<open>Relinking\<close>

text \<open>
  Claim C10. As stated the claim fails for the empty id: it is absent from the store, but an
  element whose \<open>sequenceId\<close> is empty counts as not linked, so the next analysis reports
  \<open>unlinked\<close>.
\<close>

theorem relink_empty_id_unlinked:
  "find_sequence [] (sequences state_one) = None
   \<and> fst (relink [] state_one) = Done
   \<and> analyzeSelection (snd (relink [] state_one)) = Unlinked ''1:2'' ''INV-0099''"
  by code_simp

text \<open>
  Claim C10, amended. With a single text element selected, relink runs to its end for every new
  id without looking the id up in the store: it writes the \<open>sequenceId\<close> of that element
  only (stamped value, time stamp and text stay, as do the sequences), and posts
  \<open>relinked\<close> followed by the selection state. When the new id is not empty and is
  absent from the store, the selection analysis of the resulting state is
  \<open>broken-link\<close>, carrying the stamped value; when the new id is empty it is
  \<open>unlinked\<close>.
\<close>

theorem relink_unchecked:
  assumes "selected_nodes st = [n]" and "node_type n = ''TEXT''"
  shows "fst (relink newId st) = Done
       \<and> sequences (snd (relink newId st)) = sequences st
       \<and> nodes_of (currentPage (snd (relink newId st)))
           = map (\<lambda>d. if node_id d = node_id n then d\<lparr>sequenceId := newId\<rparr> else d)
               (nodes_of (currentPage st))
       \<and> selected_nodes (snd (relink newId st)) = [n\<lparr>sequenceId := newId\<rparr>]
       \<and> posted (snd (relink newId st))
           = posted st @ [Relinked,
               SelectionState (analyzeSelection (snd (relink newId st))) (sequences st)
                 (getSelectedId st)
                 (case getSelectedId st of None \<Rightarrow> None
                  | Some i \<Rightarrow> find_sequence i (sequences st))]
       \<and> (newId \<noteq> [] \<and> find_sequence newId (sequences st) = None \<longrightarrow>
            analyzeSelection (snd (relink newId st)) = BrokenLink (node_id n) (stampedValue n))
       \<and> (newId = [] \<longrightarrow>
            analyzeSelection (snd (relink newId st)) = Unlinked (node_id n) (characters n))"
proof -
  let ?st1 = "st\<lparr>currentPage := update_node (node_id n) (\<lambda>d. d\<lparr>sequenceId := newId\<rparr>) (currentPage st)\<rparr>"
  have r: "relink newId st = (Done, sendSelectionState (postMessage Relinked ?st1))"
    using assms by (simp add: relink_def single_text_one Let_def)
  have sel1: "selected_nodes ?st1 = [n\<lparr>sequenceId := newId\<rparr>]"
    using selected_nodes_update[where f = "\<lambda>d. d\<lparr>sequenceId := newId\<rparr>" and st = st and i = "node_id n"] assms(1) by simp
  have an: "analyzeSelection (snd (relink newId st)) = analyzeSelection ?st1"
    unfolding r by (simp add: analyzeSelection_sent analyzeSelection_posted)
  have a: "fst (relink newId st) = Done" unfolding r by simp
  have b: "sequences (snd (relink newId st)) = sequences st"
    unfolding r by (simp add: sendSelectionState_fields postMessage_fields)
  have c: "nodes_of (currentPage (snd (relink newId st)))
           = map (\<lambda>d. if node_id d = node_id n then d\<lparr>sequenceId := newId\<rparr> else d)
               (nodes_of (currentPage st))"
    unfolding r by (simp add: sendSelectionState_fields postMessage_fields nodes_of_update_node)
  have d: "selected_nodes (snd (relink newId st)) = [n\<lparr>sequenceId := newId\<rparr>]"
  proof -
    have "selected_nodes (snd (relink newId st)) = selected_nodes ?st1"
      unfolding r selected_nodes_def
      by (simp add: sendSelectionState_fields postMessage_fields)
    with sel1 show ?thesis by simp
  qed
  have e: "posted (snd (relink newId st))
           = posted st @ [Relinked,
               SelectionState (analyzeSelection (snd (relink newId st))) (sequences st)
                 (getSelectedId st)
                 (case getSelectedId st of None \<Rightarrow> None
                  | Some i \<Rightarrow> find_sequence i (sequences st))]"
    unfolding an unfolding r
    by (simp add: posted_sendSelectionState postMessage_fields analyzeSelection_posted
        getSelectedId_def)
  have f: "newId \<noteq> [] \<and> find_sequence newId (sequences st) = None \<longrightarrow>
            analyzeSelection (snd (relink newId st)) = BrokenLink (node_id n) (stampedValue n)"
    unfolding an unfolding analyzeSelection_def unfolding sel1 using assms(2)
    by (simp add: getNodeLinkData_def getSequences_def)
  have g: "newId = [] \<longrightarrow>
            analyzeSelection (snd (relink newId st)) = Unlinked (node_id n) (characters n)"
    unfolding an unfolding analyzeSelection_def unfolding sel1 using assms(2)
    by (simp add: getNodeLinkData_def)
  from a b c d e f g show ?thesis by blast
qed

theorem relink_unchecked_witness:
  "find_sequence ''seq_gone'' (sequences state_one) = None
   \<and> fst (relink ''seq_gone'' state_one) = Done
   \<and> analyzeSelection (snd (relink ''seq_gone'' state_one)) = BrokenLink ''1:2'' ''INV-0099''"
proof -
  let ?n = "text_data ''1:2'' ''seq_a'' ''INV-0099''"
  have t: "node_type ?n = ''TEXT''" by (simp add: text_data_def)
  have s: "selected_nodes state_one = [?n]" by code_simp
  have f: "find_sequence ''seq_gone'' (sequences state_one) = None" by code_simp
  have i: "node_id ?n = ''1:2''" "stampedValue ?n = ''INV-0099''" by (simp_all add: text_data_def)
  note r = relink_unchecked[OF s t, of "''seq_gone''"]
  from r[THEN conjunct1] f
    r[THEN conjunct2, THEN conjunct2, THEN conjunct2, THEN conjunct2, THEN conjunct2, THEN conjunct1]
  show ?thesis by (simp add: i)
qed

section \<open>Validity of the next value\<close>

text \<open>
  Claim C9. As stated the claim fails: create-sequence stores the trimmed start value as it
  comes. From a store whose sequences are all valid, a create request for a number
  sequence with start value \<open>abc\<close> leaves a sequence whose next value is \<open>abc\<close>.
\<close>

theorem create_stores_unvalidated_value:
  "list_all valid_sequence (sequences state_blank)
   \<and> map nextValue (sequences (snd (onmessage env0
         (CreateSequence ''Invoice#'' (Some ''INV-'') ''abc'' ''number'' ''compliance'') state_blank)))
       = [''abc'']
   \<and> \<not> list_all valid_sequence (sequences (snd (onmessage env0
         (CreateSequence ''Invoice#'' (Some ''INV-'') ''abc'' ''number'' ''compliance'') state_blank)))"
  by code_simp

text \<open>
  Claim C9, amended. Every message preserves the validity of the next value of every sequence
  of the store (digits only for \<open>number\<close>, upper-case letters only for \<open>letter\<close>),
  provided the value the message brings is valid: the start value of a create request
  for its type, and the value of a reset request for the type of the sequence it
  resets, both after trimming. The handlers store these values without validating them.
  Number values are taken below \<open>2^53\<close>.
\<close>

theorem nextValue_validity_preserved:
  assumes "list_all valid_sequence (sequences st)" and "list_all exact_range (sequences st)"
    and "request_valid m st"
  shows "list_all valid_sequence (sequences (snd (onmessage e m st)))"
  using assms(1,3) by (rule nextValue_validity_step)

theorem nextValue_validity_preserved_witness:
  "list_all valid_sequence (sequences state_unused)
   \<and> map nextValue (sequences (snd (onmessage env0 (LinkAndStamp ''seq_a'') state_unused))) = [''0101'']
   \<and> list_all valid_sequence (sequences (snd (onmessage env0 (LinkAndStamp ''seq_a'') state_unused)))"
proof -
  have 1: "list_all valid_sequence (sequences state_unused)" by code_simp
  have 2: "list_all exact_range (sequences state_unused)"
    by (simp add: state_unused_def document_def invoices_def exact_range_def digits_value_def
        digit_value_def code_def)
  have 3: "request_valid (LinkAndStamp ''seq_a'') state_unused" by (simp add: request_valid_def)
  have 4: "map nextValue (sequences (snd (onmessage env0 (LinkAndStamp ''seq_a'') state_unused))) = [''0101'']"
    by code_simp
  from 1 4 nextValue_validity_preserved[OF 1 2 3, of env0] show ?thesis by simp
qed

section \<open>Reset and the watermark\<close>

text \<open>
  Claim C1. The reset handler compares the numbers \<open>parseInt\<close> reads, whatever the type of the
  sequence. For a letter sequence both are \<open>NaN\<close>, the comparison is false and the reset
  is accepted: after a compliance letter sequence has issued \<open>A\<close>, so that its watermark
  is \<open>A\<close>, a reset to \<open>A\<close> runs to its end and the next value is \<open>A\<close> again. (For number
  sequences the guard is as claimed: \<open>reset_number_guard\<close>, \<open>reset_design\<close>.)
\<close>

theorem reset_letter_at_watermark:
  "map mode (sequences (run env0 (revision_messages ''A'') state_blank)) = [''compliance'']
   \<and> map highestUsed (sequences (run env0 (revision_messages ''A'') state_blank)) = [''A'']
   \<and> map nextValue (sequences (run env0 (revision_messages ''A'') state_blank)) = [''B'']
   \<and> compareValues ''A'' ''A'' ''letter'' = Num 0
   \<and> fst (reset (generateId env0) ''A'' (run env0 (revision_messages ''A'') state_blank)) = Done
   \<and> map nextValue (sequences (snd (reset (generateId env0) ''A''
         (run env0 (revision_messages ''A'') state_blank)))) = [''A'']"
  by code_simp

text \<open>
  Claim C2. A stamp raises the watermark exactly when the stamped value compares greater
  (\<open>advance_watermark\<close>), and no message lowers it (\<open>watermark_step\<close>). But the comparison of letter
  values is by characters: a compliance letter sequence that issues \<open>Z\<close> and then its
  successor \<open>AA\<close> keeps the watermark \<open>Z\<close>, which is not the largest value issued.
\<close>

theorem watermark_letter_Z_AA:
  "stamped_values (posted (run env0 [LinkAndStamp (generateId env0)]
       ((run env0 (revision_messages ''Z'') state_blank)\<lparr>selection := [''1:3'']\<rparr>)))
     = [''Z'', ''AA'']
   \<and> map highestUsed (sequences (run env0 [LinkAndStamp (generateId env0)]
       ((run env0 (revision_messages ''Z'') state_blank)\<lparr>selection := [''1:3'']\<rparr>)))
     = [''Z'']
   \<and> incrementLetter ''Z'' = ''AA''
   \<and> bijective26 ''Z'' < bijective26 ''AA''"
  by code_simp

section \<open>Locking\<close>

text \<open>
  Claim C4. The link-and-stamp handler locks a compliance sequence (\<open>link_and_stamp_locks\<close>);
  the stamp handler does not. A text element relinked to a fresh compliance sequence is
  stamped by a stamp request, which runs to its end and leaves the sequence unlocked.
\<close>

theorem stamp_leaves_unlocked:
  "fst (stamp env0 (run env0 create_and_relink state_blank)) = Done
   \<and> stamped_values (posted (snd (stamp env0 (run env0 create_and_relink state_blank))))
       = [''INV-0001'']
   \<and> map mode (sequences (snd (stamp env0 (run env0 create_and_relink state_blank))))
       = [''compliance'']
   \<and> map locked (sequences (snd (stamp env0 (run env0 create_and_relink state_blank))))
       = [False]"
  by code_simp

end
